theory Spec2Isabelle
  imports Main "HOL-Library.Word"
begin

section \<open>The atomic counter (package concurrent, type Counter)\<close>

text \<open>
  Go's \<open>int64\<close> is a 64-bit two's-complement integer: \<open>+\<close> and \<open>-\<close> on \<open>64 word\<close>
  wrap around exactly as the machine does, and \<open>sint\<close> reads the signed value.
\<close>

type_synonym int64 = "64 word"

text \<open>
  The functions of \<open>sync/atomic\<close> that the counter calls, on the contents of the
  addressed cell. Each is one indivisible operation, so it is a function from the
  cell's contents to the returned value and the new contents.
  \<^item> \<open>AddInt64(addr, delta)\<close> adds \<open>delta\<close> to \<open>*addr\<close> and returns the new value;
  \<^item> \<open>LoadInt64(addr)\<close> returns \<open>*addr\<close>;
  \<^item> \<open>StoreInt64(addr, val)\<close> stores \<open>val\<close> into \<open>*addr\<close>;
  \<^item> \<open>CompareAndSwapInt64(addr, old, new)\<close> stores \<open>new\<close> if \<open>*addr = old\<close> and
    reports whether it did.
\<close>

definition AddInt64 :: "int64 \<Rightarrow> int64 \<Rightarrow> int64 \<times> int64" where
  "AddInt64 cell delta = (cell + delta, cell + delta)"

definition LoadInt64 :: "int64 \<Rightarrow> int64 \<times> int64" where
  "LoadInt64 cell = (cell, cell)"

definition StoreInt64 :: "int64 \<Rightarrow> int64 \<Rightarrow> int64" where
  "StoreInt64 cell v = v"

definition CompareAndSwapInt64 :: "int64 \<Rightarrow> int64 \<Rightarrow> int64 \<Rightarrow> bool \<times> int64" where
  "CompareAndSwapInt64 cell old new = (if cell = old then (True, new) else (False, cell))"

text \<open>\<^verbatim>\<open>type Counter struct { value int64 }\<close>\<close>

record Counter =
  counter_value :: int64

text \<open>\<^verbatim>\<open>func NewCounter(initial int64) *Counter\<close>\<close>

definition NewCounter :: "int64 \<Rightarrow> Counter" where
  "NewCounter initial = \<lparr>counter_value = initial\<rparr>"

text \<open>
  Every method takes the counter and gives back what it returns together with the
  counter afterwards.
\<close>

definition Increment :: "Counter \<Rightarrow> int64 \<times> Counter" where
  "Increment c = (case AddInt64 (counter_value c) 1 of
                    (r, cell) \<Rightarrow> (r, c\<lparr>counter_value := cell\<rparr>))"

definition Decrement :: "Counter \<Rightarrow> int64 \<times> Counter" where
  "Decrement c = (case AddInt64 (counter_value c) (- 1) of
                    (r, cell) \<Rightarrow> (r, c\<lparr>counter_value := cell\<rparr>))"

definition Add :: "Counter \<Rightarrow> int64 \<Rightarrow> int64 \<times> Counter" where
  "Add c delta = (case AddInt64 (counter_value c) delta of
                    (r, cell) \<Rightarrow> (r, c\<lparr>counter_value := cell\<rparr>))"

definition Value :: "Counter \<Rightarrow> int64 \<times> Counter" where
  "Value c = (case LoadInt64 (counter_value c) of
                (r, cell) \<Rightarrow> (r, c\<lparr>counter_value := cell\<rparr>))"

definition Reset :: "Counter \<Rightarrow> Counter" where
  "Reset c = c\<lparr>counter_value := StoreInt64 (counter_value c) 0\<rparr>"

definition CompareAndSwap :: "Counter \<Rightarrow> int64 \<Rightarrow> int64 \<Rightarrow> bool \<times> Counter" where
  "CompareAndSwap c old new = (case CompareAndSwapInt64 (counter_value c) old new of
                                 (r, cell) \<Rightarrow> (r, c\<lparr>counter_value := cell\<rparr>))"

text \<open>The largest and the smallest \<open>int64\<close>.\<close>

definition MaxInt64 :: int64 where
  "MaxInt64 = 0x7FFFFFFFFFFFFFFF"

definition MinInt64 :: int64 where
  "MinInt64 = 0x8000000000000000"

subsection \<open>Properties of the counter\<close>

lemma Increment_eq:
  "Increment c = (counter_value c + 1, c\<lparr>counter_value := counter_value c + 1\<rparr>)"
  by (simp add: Increment_def AddInt64_def)

lemma Decrement_eq:
  "Decrement c = (counter_value c - 1, c\<lparr>counter_value := counter_value c - 1\<rparr>)"
  by (simp add: Decrement_def AddInt64_def)

lemma Add_eq:
  "Add c delta = (counter_value c + delta, c\<lparr>counter_value := counter_value c + delta\<rparr>)"
  by (simp add: Add_def AddInt64_def)

lemma Value_eq: "Value c = (counter_value c, c)"
  by (simp add: Value_def LoadInt64_def)

lemma Decrement_Increment: "snd (Decrement (snd (Increment c))) = c"
  by (simp add: Increment_eq Decrement_eq)

lemma Increment_Decrement: "snd (Increment (snd (Decrement c))) = c"
  by (simp add: Increment_eq Decrement_eq)

lemma Increment_funpow:
  "((snd \<circ> Increment) ^^ n) c = c\<lparr>counter_value := counter_value c + of_nat n\<rparr>"
  by (induction n) (simp_all add: Increment_eq add.assoc)

lemma Decrement_funpow:
  "((snd \<circ> Decrement) ^^ n) c = c\<lparr>counter_value := counter_value c - of_nat n\<rparr>"
  by (induction n) (simp_all add: Decrement_eq diff_diff_eq)

text \<open>Where the sum of the integers fits into \<open>int64\<close>, the counter holds that sum.\<close>

lemma Add_in_range:
  assumes "- (2 ^ 63) \<le> sint (counter_value c) + sint delta"
    and "sint (counter_value c) + sint delta < 2 ^ 63"
  shows "sint (fst (Add c delta)) = sint (counter_value c) + sint delta"
  using assms
  by (simp add: Add_eq sint_word_ariths signed_take_bit_int_eq_self)

text \<open>
  C5. \<open>CompareAndSwap(expected, newValue)\<close> returns true exactly when the counter holds
  \<open>expected\<close>; then the counter holds \<open>newValue\<close> afterwards, and otherwise it returns
  false and the counter is as it was.
\<close>

theorem CompareAndSwap_spec:
  "fst (CompareAndSwap c expected newValue) = (counter_value c = expected)
   \<and> snd (CompareAndSwap c expected newValue) =
       (if counter_value c = expected then c\<lparr>counter_value := newValue\<rparr> else c)"
  by (simp add: CompareAndSwap_def CompareAndSwapInt64_def)

text \<open>
  C6. From any starting value, \<open>N\<close> calls of \<open>Increment\<close> followed by \<open>N\<close> calls of
  \<open>Decrement\<close> leave the counter where it started; one \<open>Decrement\<close> undoes one
  \<open>Increment\<close> and the other way round.
\<close>

theorem Increment_Decrement_roundtrip:
  "((snd \<circ> Decrement) ^^ N) (((snd \<circ> Increment) ^^ N) c) = c
   \<and> snd (Decrement (snd (Increment c))) = c
   \<and> snd (Increment (snd (Decrement c))) = c"
  by (simp add: Increment_funpow Decrement_funpow Increment_eq Decrement_eq)

text \<open>
  C7. \<open>Increment\<close> stores and returns \<open>v + 1\<close>, \<open>Decrement\<close> stores and returns
  \<open>v - 1\<close> and has no floor (from 0 it gives -1), \<open>Add(delta)\<close> stores and returns
  \<open>v + delta\<close>, and \<open>Value\<close> returns \<open>v\<close> and changes nothing. The sums are those of
  \<open>int64\<close>.
\<close>

theorem Counter_operations:
  "Increment c = (counter_value c + 1, c\<lparr>counter_value := counter_value c + 1\<rparr>)
   \<and> Decrement c = (counter_value c - 1, c\<lparr>counter_value := counter_value c - 1\<rparr>)
   \<and> Add c delta = (counter_value c + delta, c\<lparr>counter_value := counter_value c + delta\<rparr>)
   \<and> Value c = (counter_value c, c)
   \<and> sint (fst (Decrement (NewCounter 0))) = - 1
   \<and> sint (counter_value (snd (Decrement (NewCounter 0)))) = - 1"
  by (simp add: Increment_eq Decrement_eq Add_eq Value_eq NewCounter_def)

text \<open>
  C9. The counter's arithmetic is that of 64-bit two's complement: the operations are
  total (they return a value for every counter and every delta), \<open>Increment\<close> on the
  largest \<open>int64\<close> gives the smallest and \<open>Decrement\<close> on the smallest gives the
  largest, and \<open>Add(delta)\<close> gives \<open>(v + delta) mod 2^64\<close>
  read as a signed 64-bit integer.
\<close>

theorem Counter_wraps:
  "fst (Increment (NewCounter MaxInt64)) = MinInt64
   \<and> counter_value (snd (Increment (NewCounter MaxInt64))) = MinInt64
   \<and> fst (Decrement (NewCounter MinInt64)) = MaxInt64
   \<and> sint MaxInt64 = 2 ^ 63 - 1
   \<and> sint MinInt64 = - (2 ^ 63)
   \<and> uint (fst (Add c delta)) = (uint (counter_value c) + uint delta) mod 2 ^ 64
   \<and> sint (fst (Add c delta)) = signed_take_bit 63 (sint (counter_value c) + sint delta)
   \<and> counter_value (snd (Add c delta)) = fst (Add c delta)
   \<and> uint (fst (Increment c)) = (uint (counter_value c) + 1) mod 2 ^ 64
   \<and> uint (fst (Decrement c)) = (uint (counter_value c) - 1) mod 2 ^ 64"
  by (simp add: Increment_eq Decrement_eq Add_eq NewCounter_def MaxInt64_def MinInt64_def
      uint_word_ariths sint_word_ariths)

section \<open>The worker pool (package concurrent, type Pool)\<close>

subsection \<open>The pool's data\<close>

text \<open>
  What the Go runtime does when the code misuses one of its primitives: \<open>make\<close> of a
  channel with a negative size, \<open>Unlock\<close> of a mutex that is not locked, and a
  \<open>WaitGroup\<close> counter driven below zero.
\<close>

datatype fault = MakechanSizeOutOfRange | UnlockOfUnlockedMutex | NegativeWaitGroupCounter

text \<open>
  A step of a thread gives the state afterwards (\<open>Next\<close>), or the thread cannot take
  it now and waits (\<open>Blocked\<close>), or the thread has nothing left to run (\<open>Halted\<close>), or
  the runtime stops the program (\<open>Panic\<close>).
\<close>

datatype 'a outcome = Next 'a | Blocked | Halted | Panic fault

fun map_outcome :: "('a \<Rightarrow> 'b) \<Rightarrow> 'a outcome \<Rightarrow> 'b outcome" where
  "map_outcome f (Next x) = Next (f x)"
| "map_outcome f Blocked = Blocked"
| "map_outcome f Halted = Halted"
| "map_outcome f (Panic e) = Panic e"

text \<open>
  \<^verbatim>\<open>workers chan struct{}\<close>: the elements carry no data, so a buffered channel is its
  capacity and the number of elements it holds.
\<close>

record chan =
  chan_cap :: nat
  chan_len :: nat

text \<open>
  \<^verbatim>\<open>type Pool struct { workers chan struct{}; wg sync.WaitGroup; activeJobs int32;
  closed bool; mu sync.Mutex }\<close>. The wait group is its counter, the mutex is whether
  it is held.
\<close>

record Pool =
  workers :: chan
  wg :: int
  activeJobs :: "32 word"
  closed :: bool
  mu :: bool

text \<open>
  \<open>make(chan struct{}, size)\<close> panics when \<open>size\<close> is negative, and only then: the
  elements take no memory. The parameter \<open>sz\<close> is the source's \<open>size\<close>.
\<close>

definition make_chan :: "int \<Rightarrow> fault + chan" where
  "make_chan sz = (if sz < 0 then Inl MakechanSizeOutOfRange
                   else Inr \<lparr>chan_cap = nat sz, chan_len = 0\<rparr>)"

text \<open>
  \<^verbatim>\<open>func NewPool(size int) *Pool { return &Pool{workers: make(chan struct{}, size)} }\<close>:
  every other field has its zero value.
\<close>

definition NewPool :: "int \<Rightarrow> fault + Pool" where
  "NewPool sz = (case make_chan sz of
                   Inl e \<Rightarrow> Inl e
                 | Inr c \<Rightarrow> Inr \<lparr>workers = c, wg = 0, activeJobs = 0,
                                closed = False, mu = False\<rparr>)"

text \<open>\<^verbatim>\<open>func (p *Pool) ActiveTasks() int { return len(p.workers) }\<close>\<close>

definition ActiveTasks :: "Pool \<Rightarrow> int" where
  "ActiveTasks p = int (chan_len (workers p))"

subsection \<open>The primitives the pool calls\<close>

text \<open>
  \<open>p.mu.Lock()\<close> waits while the mutex is held; \<open>p.mu.Unlock()\<close> of a mutex that is not
  held is a fatal error.
\<close>

definition mu_Lock :: "Pool \<Rightarrow> Pool outcome" where
  "mu_Lock p = (if mu p then Blocked else Next (p\<lparr>mu := True\<rparr>))"

definition mu_Unlock :: "Pool \<Rightarrow> Pool outcome" where
  "mu_Unlock p = (if mu p then Next (p\<lparr>mu := False\<rparr>) else Panic UnlockOfUnlockedMutex)"

text \<open>
  \<open>p.wg.Add(delta)\<close> adds to the counter and panics when it would become negative;
  \<open>p.wg.Done()\<close> is \<open>Add(-1)\<close>; \<open>p.wg.Wait()\<close> waits until the counter is zero.
  This is the wait group as \<open>sync\<close> documents it. The library also releases a waiter
  at the moment the counter reaches zero, whatever is added afterwards, and it may
  panic when it detects an \<open>Add\<close> from zero that races with a \<open>Wait\<close>; neither is in
  the model, and \<open>Panic\<close> below means one of the three failures of \<open>fault\<close> only.
  Every execution of the library that does not panic is an execution of the model,
  so what holds in every state the model reaches holds in the library. An execution
  of the model in which no \<open>Wait\<close> finds the counter above zero registers no waiter
  and is an execution of the library.
\<close>

definition wg_Add :: "Pool \<Rightarrow> int \<Rightarrow> Pool outcome" where
  "wg_Add p delta = (if wg p + delta < 0 then Panic NegativeWaitGroupCounter
                     else Next (p\<lparr>wg := wg p + delta\<rparr>))"

definition wg_Done :: "Pool \<Rightarrow> Pool outcome" where
  "wg_Done p = wg_Add p (- 1)"

definition wg_Wait :: "Pool \<Rightarrow> Pool outcome" where
  "wg_Wait p = (if wg p = 0 then Next p else Blocked)"

text \<open>
  \<open>p.workers <- struct{}{}\<close> waits while the buffer is full; \<open><-p.workers\<close> waits while
  it is empty. A send can also hand its element to a goroutine that is parked in a
  receive. The only receive on this channel is the deferred one of a goroutine whose
  own send has gone through, and \<open>receive_never_waits\<close> below shows that the buffer
  is never empty there: no goroutine is ever parked in a receive, so the hand-over
  never happens and the two rules below are all that the channel does.
\<close>

definition workers_send :: "Pool \<Rightarrow> Pool outcome" where
  "workers_send p =
     (if chan_len (workers p) < chan_cap (workers p)
      then Next (p\<lparr>workers := (workers p)\<lparr>chan_len := chan_len (workers p) + 1\<rparr>\<rparr>)
      else Blocked)"

definition workers_recv :: "Pool \<Rightarrow> Pool outcome" where
  "workers_recv p =
     (if 0 < chan_len (workers p)
      then Next (p\<lparr>workers := (workers p)\<lparr>chan_len := chan_len (workers p) - 1\<rparr>\<rparr>)
      else Blocked)"

subsection \<open>Threads\<close>

text \<open>
  A task is named by a number: the pool never looks inside the function it is given,
  it calls it once and drops what it returns. A task is taken to return when it is
  run to its end; one that takes long, or for ever, is a goroutine that the schedule
  leaves inside its task.
\<close>

type_synonym task = nat

datatype call = Submit task | Close

text \<open>
  Where a caller stands inside \<open>Submit\<close> or \<open>Close\<close>: each constructor names the
  statement the caller runs next.
\<close>

datatype caller_pc =
    Idle
  | Submit_Locked task
  | Submit_Closed task
  | Submit_RetErr task
  | Submit_Open task
  | Submit_Add task
  | Submit_Go task
  | Submit_RetNil task
  | Close_Locked
  | Close_Unlock
  | Close_Wait
  | Close_Ret

record caller =
  cpc :: caller_pc
  todo :: "call list"

text \<open>
  Where the goroutine that \<open>Submit\<close> starts stands: before the send on \<open>workers\<close>,
  before the call of the task, inside the task, before the deferred receive, before
  the deferred \<open>wg.Done()\<close>, and gone.
\<close>

datatype worker_pc = W_Acquire | W_Call | W_Body | W_Release | W_Done | W_Exit

record goroutine =
  spawner :: nat
  gtask :: task
  wpc :: worker_pc

text \<open>What an observer of the program sees, in the order it happens.\<close>

datatype event =
    SubmitErr nat task
  | SubmitOk nat task
  | TaskStarted nat task
  | TaskFinished nat task
  | CloseReturned nat

record system =
  pool :: Pool
  callers :: "caller list"
  goroutines :: "goroutine list"
  trace :: "event list"

datatype tid = Caller nat | Worker nat

subsection \<open>One step of a thread\<close>

text \<open>
  A step of caller \<open>i\<close>: the caller afterwards, the pool afterwards, the goroutines
  it starts and the events it shows. The statements of the source, in order:
  \<^verbatim>\<open>
  func (p *Pool) Submit(task func() error) error {
      p.mu.Lock()                              // Idle, next call Submit
      if p.closed {                            // Submit_Locked
          p.mu.Unlock()                        // Submit_Closed
          return errors.New("pool is closed")  // Submit_RetErr
      }
      p.mu.Unlock()                            // Submit_Open
      p.wg.Add(1)                              // Submit_Add
      go func() { ... }()                      // Submit_Go
      return nil                               // Submit_RetNil
  }
  func (p *Pool) Close() {
      p.mu.Lock()                              // Idle, next call Close
      p.closed = true                          // Close_Locked
      p.mu.Unlock()                            // Close_Unlock
      p.wg.Wait()                              // Close_Wait
  }                                            // Close_Ret
  \<close>
\<close>

definition begin_call :: "call \<Rightarrow> caller_pc" where
  "begin_call c = (case c of Submit t \<Rightarrow> Submit_Locked t | Close \<Rightarrow> Close_Locked)"

definition caller_step ::
  "nat \<Rightarrow> caller \<Rightarrow> Pool \<Rightarrow> (caller \<times> Pool \<times> goroutine list \<times> event list) outcome" where
  "caller_step i c p =
     (case cpc c of
        Idle \<Rightarrow>
          (case todo c of
             [] \<Rightarrow> Halted
           | x # xs \<Rightarrow>
               map_outcome (\<lambda>p'. (\<lparr>cpc = begin_call x, todo = xs\<rparr>, p', [], [])) (mu_Lock p))
      | Submit_Locked t \<Rightarrow>
          Next (c\<lparr>cpc := (if closed p then Submit_Closed t else Submit_Open t)\<rparr>, p, [], [])
      | Submit_Closed t \<Rightarrow>
          map_outcome (\<lambda>p'. (c\<lparr>cpc := Submit_RetErr t\<rparr>, p', [], [])) (mu_Unlock p)
      | Submit_RetErr t \<Rightarrow>
          Next (c\<lparr>cpc := Idle\<rparr>, p, [], [SubmitErr i t])
      | Submit_Open t \<Rightarrow>
          map_outcome (\<lambda>p'. (c\<lparr>cpc := Submit_Add t\<rparr>, p', [], [])) (mu_Unlock p)
      | Submit_Add t \<Rightarrow>
          map_outcome (\<lambda>p'. (c\<lparr>cpc := Submit_Go t\<rparr>, p', [], [])) (wg_Add p 1)
      | Submit_Go t \<Rightarrow>
          Next (c\<lparr>cpc := Submit_RetNil t\<rparr>, p,
                [\<lparr>spawner = i, gtask = t, wpc = W_Acquire\<rparr>], [])
      | Submit_RetNil t \<Rightarrow>
          Next (c\<lparr>cpc := Idle\<rparr>, p, [], [SubmitOk i t])
      | Close_Locked \<Rightarrow>
          Next (c\<lparr>cpc := Close_Unlock\<rparr>, p\<lparr>closed := True\<rparr>, [], [])
      | Close_Unlock \<Rightarrow>
          map_outcome (\<lambda>p'. (c\<lparr>cpc := Close_Wait\<rparr>, p', [], [])) (mu_Unlock p)
      | Close_Wait \<Rightarrow>
          map_outcome (\<lambda>p'. (c\<lparr>cpc := Close_Ret\<rparr>, p', [], [])) (wg_Wait p)
      | Close_Ret \<Rightarrow>
          Next (c\<lparr>cpc := Idle\<rparr>, p, [], [CloseReturned i]))"

text \<open>
  A step of goroutine \<open>j\<close>: the goroutine afterwards, the pool afterwards and the
  events it shows.
  \<^verbatim>\<open>
  go func() {
      defer p.wg.Done()                // runs last: W_Done
      p.workers <- struct{}{}          // W_Acquire
      defer func() { <-p.workers }()   // runs when the task is over: W_Release
      _ = task()                       // W_Call enters the task, W_Body leaves it
  }()
  \<close>
\<close>

definition worker_step ::
  "nat \<Rightarrow> goroutine \<Rightarrow> Pool \<Rightarrow> (goroutine \<times> Pool \<times> event list) outcome" where
  "worker_step j g p =
     (case wpc g of
        W_Acquire \<Rightarrow> map_outcome (\<lambda>p'. (g\<lparr>wpc := W_Call\<rparr>, p', [])) (workers_send p)
      | W_Call \<Rightarrow> Next (g\<lparr>wpc := W_Body\<rparr>, p, [TaskStarted j (gtask g)])
      | W_Body \<Rightarrow> Next (g\<lparr>wpc := W_Release\<rparr>, p, [TaskFinished j (gtask g)])
      | W_Release \<Rightarrow> map_outcome (\<lambda>p'. (g\<lparr>wpc := W_Done\<rparr>, p', [])) (workers_recv p)
      | W_Done \<Rightarrow> map_outcome (\<lambda>p'. (g\<lparr>wpc := W_Exit\<rparr>, p', [])) (wg_Done p)
      | W_Exit \<Rightarrow> Halted)"

text \<open>One step of the program: the scheduler picks a thread and it runs one statement.\<close>

definition step :: "tid \<Rightarrow> system \<Rightarrow> system outcome" where
  "step t s =
     (case t of
        Caller i \<Rightarrow>
          (if i < length (callers s)
           then map_outcome
                  (\<lambda>(c', p', gs, evs).
                     s\<lparr>pool := p', callers := (callers s)[i := c'],
                       goroutines := goroutines s @ gs, trace := trace s @ evs\<rparr>)
                  (caller_step i (callers s ! i) (pool s))
           else Halted)
      | Worker j \<Rightarrow>
          (if j < length (goroutines s)
           then map_outcome
                  (\<lambda>(g', p', evs).
                     s\<lparr>pool := p', goroutines := (goroutines s)[j := g'],
                       trace := trace s @ evs\<rparr>)
                  (worker_step j (goroutines s ! j) (pool s))
           else Halted))"

text \<open>
  A schedule is the list of the threads that run, one statement each. A schedule that
  picks a thread which cannot run is not an execution of the program.
\<close>

fun run :: "tid list \<Rightarrow> system \<Rightarrow> system outcome" where
  "run [] s = Next s"
| "run (t # ts) s =
     (case step t s of
        Next s' \<Rightarrow> run ts s'
      | Blocked \<Rightarrow> Blocked
      | Halted \<Rightarrow> Halted
      | Panic e \<Rightarrow> Panic e)"

text \<open>
  The program at its start: the pool as \<open>NewPool\<close> returned it, one caller for each
  list of calls, no goroutine, nothing observed.
\<close>

definition boot :: "Pool \<Rightarrow> call list list \<Rightarrow> system" where
  "boot p progs = \<lparr>pool = p, callers = map (\<lambda>cs. \<lparr>cpc = Idle, todo = cs\<rparr>) progs,
                   goroutines = [], trace = []\<rparr>"

subsection \<open>What the claims speak of\<close>

text \<open>
  A task is executing from the moment its goroutine has the permit until it gives the
  permit back.
\<close>

definition holds_permit :: "goroutine \<Rightarrow> bool" where
  "holds_permit g = (wpc g = W_Call \<or> wpc g = W_Body \<or> wpc g = W_Release)"

definition executing :: "system \<Rightarrow> nat" where
  "executing s = length (filter holds_permit (goroutines s))"

text \<open>The tasks that some \<open>Submit\<close> has accepted, and those that have run to their end.\<close>

fun accepted :: "event list \<Rightarrow> task list" where
  "accepted [] = []"
| "accepted (SubmitOk c t # es) = t # accepted es"
| "accepted (e # es) = accepted es"

fun finished :: "event list \<Rightarrow> task list" where
  "finished [] = []"
| "finished (TaskFinished g t # es) = t # finished es"
| "finished (e # es) = finished es"

definition pending :: "event list \<Rightarrow> task list" where
  "pending es = filter (\<lambda>t. t \<notin> set (finished es)) (accepted es)"

text \<open>
  \<open>close_drained seen es\<close>: at every return of \<open>Close\<close> in \<open>es\<close> (which follows what
  was \<open>seen\<close>), no accepted task is still to finish.
\<close>

fun close_drained :: "event list \<Rightarrow> event list \<Rightarrow> bool" where
  "close_drained seen [] = True"
| "close_drained seen (CloseReturned c # es) =
     (pending seen = [] \<and> close_drained (seen @ [CloseReturned c]) es)"
| "close_drained seen (e # es) = close_drained (seen @ [e]) es"

subsection \<open>What stays true while the program runs\<close>

text \<open>
  The callers that hold the mutex, the callers that have added to the wait group and
  not yet started their goroutine, and the goroutines that have not yet called
  \<open>wg.Done()\<close>.
\<close>

definition holds_mu :: "caller_pc \<Rightarrow> bool" where
  "holds_mu pc = (case pc of
      Submit_Locked t \<Rightarrow> True | Submit_Closed t \<Rightarrow> True | Submit_Open t \<Rightarrow> True
    | Close_Locked \<Rightarrow> True | Close_Unlock \<Rightarrow> True | _ \<Rightarrow> False)"

definition added :: "caller_pc \<Rightarrow> bool" where
  "added pc = (case pc of Submit_Go t \<Rightarrow> True | _ \<Rightarrow> False)"

definition counted :: "goroutine \<Rightarrow> bool" where
  "counted g = (wpc g \<noteq> W_Exit)"

definition permits_ok :: "system \<Rightarrow> bool" where
  "permits_ok s = (chan_len (workers (pool s)) = executing s
                   \<and> chan_len (workers (pool s)) \<le> chan_cap (workers (pool s)))"

definition mutex_ok :: "system \<Rightarrow> bool" where
  "mutex_ok s = (length (filter (\<lambda>c. holds_mu (cpc c)) (callers s)) = of_bool (mu (pool s)))"

definition wg_ok :: "system \<Rightarrow> bool" where
  "wg_ok s = (wg (pool s) = int (length (filter (\<lambda>c. added (cpc c)) (callers s))
                                + length (filter counted (goroutines s))))"

subsection \<open>Notions for the claims about Submit and Close\<close>

text \<open>
  A caller is accepting when it has read \<open>p.closed\<close> as false inside \<open>Submit\<close> and
  has not yet returned: it will add to the wait group, start the goroutine and return
  \<open>nil\<close>.
\<close>

definition accepting :: "caller_pc \<Rightarrow> bool" where
  "accepting pc = (case pc of
      Submit_Open t \<Rightarrow> True | Submit_Add t \<Rightarrow> True | Submit_Go t \<Rightarrow> True
    | Submit_RetNil t \<Rightarrow> True | _ \<Rightarrow> False)"

text \<open>
  The goroutines that caller \<open>i\<close> has started, and the events that show a \<open>Submit\<close>
  of caller \<open>i\<close> returning \<open>nil\<close>.
\<close>

definition spawned_by :: "nat \<Rightarrow> system \<Rightarrow> goroutine list" where
  "spawned_by i s = filter (\<lambda>g. spawner g = i) (goroutines s)"

definition is_SubmitOk_of :: "nat \<Rightarrow> event \<Rightarrow> bool" where
  "is_SubmitOk_of i e = (case e of SubmitOk c t \<Rightarrow> c = i | _ \<Rightarrow> False)"

definition accepted_by :: "nat \<Rightarrow> event list \<Rightarrow> event list" where
  "accepted_by i es = filter (is_SubmitOk_of i) es"

text \<open>
  \<open>rejects i n a s\<close>: the pool is closed, caller \<open>i\<close> is not accepting, it has started
  \<open>n\<close> goroutines so far and \<open>a\<close> are its accepted submissions so far.
\<close>

definition rejects :: "nat \<Rightarrow> nat \<Rightarrow> event list \<Rightarrow> system \<Rightarrow> bool" where
  "rejects i n a s = (closed (pool s) \<and> i < length (callers s)
      \<and> \<not> accepting (cpc (callers s ! i))
      \<and> length (spawned_by i s) = n \<and> accepted_by i (trace s) = a)"

subsection \<open>Executions and states used as examples\<close>

text \<open>
  Two callers, the first with one \<open>Submit\<close> and the second with one \<open>Close\<close>. The first
  reads \<open>p.closed\<close> and unlocks; the second runs \<open>Close\<close> up to the return of
  \<open>wg.Wait()\<close>; the first goes on with \<open>wg.Add(1)\<close> and the \<open>go\<close> statement and returns
  \<open>nil\<close>; the second returns from \<open>Close\<close>.
\<close>

definition race_schedule :: "tid list" where
  "race_schedule = [Caller 0, Caller 0, Caller 0, Caller 1, Caller 1, Caller 1, Caller 1,
                    Caller 0, Caller 0, Caller 0, Caller 1]"

text \<open>
  The same race against a second \<open>Close\<close>: the first caller reads \<open>p.closed\<close> and
  unlocks; the second caller runs its first \<open>Close\<close> to the end, then its second
  \<open>Close\<close> up to the return of \<open>wg.Wait()\<close>; the first caller goes on with
  \<open>wg.Add(1)\<close> and the \<open>go\<close> statement and returns \<open>nil\<close>; the second caller returns
  from its second \<open>Close\<close>.
\<close>

definition second_close_schedule :: "tid list" where
  "second_close_schedule =
     [Caller 0, Caller 0, Caller 0,
      Caller 1, Caller 1, Caller 1, Caller 1, Caller 1,
      Caller 1, Caller 1, Caller 1, Caller 1,
      Caller 0, Caller 0, Caller 0,
      Caller 1]"

text \<open>
  One caller submits three tasks (six statements each), then the first two goroutines
  take a permit and enter their tasks.
\<close>

definition busy_schedule :: "tid list" where
  "busy_schedule = replicate 18 (Caller 0) @ [Worker 0, Worker 0, Worker 1, Worker 1]"

text \<open>
  A closed pool with a caller about to submit and a caller about to close again; the
  same with the pool still open; an execution of the two callers, interleaved.
\<close>

definition closed_example :: system where
  "closed_example =
     \<lparr>pool = \<lparr>workers = \<lparr>chan_cap = 1, chan_len = 0\<rparr>, wg = 0, activeJobs = 0,
              closed = True, mu = False\<rparr>,
      callers = [\<lparr>cpc = Idle, todo = [Submit 5]\<rparr>, \<lparr>cpc = Idle, todo = [Close]\<rparr>],
      goroutines = [], trace = [CloseReturned 1]\<rparr>"

definition open_example :: system where
  "open_example =
     \<lparr>pool = \<lparr>workers = \<lparr>chan_cap = 1, chan_len = 0\<rparr>, wg = 0, activeJobs = 0,
              closed = False, mu = False\<rparr>,
      callers = [\<lparr>cpc = Idle, todo = [Submit 5]\<rparr>, \<lparr>cpc = Idle, todo = [Close]\<rparr>],
      goroutines = [], trace = []\<rparr>"

definition mixed_schedule :: "tid list" where
  "mixed_schedule = [Caller 1, Caller 1, Caller 1, Caller 0, Caller 0, Caller 1,
                     Caller 0, Caller 0, Caller 1]"

text \<open>
  One \<open>Submit\<close>, all six statements.
\<close>

definition zero_schedule :: "tid list" where
  "zero_schedule = [Caller 0, Caller 0, Caller 0, Caller 0, Caller 0, Caller 0]"

section \<open>Properties of the worker pool\<close>

subsection \<open>Steps and invariants\<close>

lemma length_filter_update:
  "j < length xs \<Longrightarrow>
   length (filter P (xs[j := y])) + of_bool (P (xs ! j)) = length (filter P xs) + of_bool (P y)"
proof (induction xs arbitrary: j)
  case Nil
  then show ?case by simp
next
  case (Cons x xs)
  then show ?case by (cases j) auto
qed

lemma map_outcome_Next: "map_outcome f x = Next y \<longleftrightarrow> (\<exists>a. x = Next a \<and> y = f a)"
  by (cases x) auto

lemma map_outcome_Panic: "map_outcome f x = Panic e \<longleftrightarrow> x = Panic e"
  by (cases x) auto

lemma map_outcome_Blocked: "map_outcome f x = Blocked \<longleftrightarrow> x = Blocked"
  by (cases x) auto

lemma map_outcome_Halted: "map_outcome f x = Halted \<longleftrightarrow> x = Halted"
  by (cases x) auto

lemma step_Caller_Next:
  "step (Caller i) s = Next s' \<longleftrightarrow>
     i < length (callers s) \<and>
     (\<exists>c' p' gs evs. caller_step i (callers s ! i) (pool s) = Next (c', p', gs, evs) \<and>
        s' = s\<lparr>pool := p', callers := (callers s)[i := c'],
               goroutines := goroutines s @ gs, trace := trace s @ evs\<rparr>)"
  by (auto simp: step_def map_outcome_Next)

lemma step_Worker_Next:
  "step (Worker j) s = Next s' \<longleftrightarrow>
     j < length (goroutines s) \<and>
     (\<exists>g' p' evs. worker_step j (goroutines s ! j) (pool s) = Next (g', p', evs) \<and>
        s' = s\<lparr>pool := p', goroutines := (goroutines s)[j := g'], trace := trace s @ evs\<rparr>)"
  by (auto simp: step_def map_outcome_Next)

lemmas prim_defs = mu_Lock_def mu_Unlock_def wg_Add_def wg_Done_def wg_Wait_def
  workers_send_def workers_recv_def

lemma caller_step_permits:
  assumes "caller_step i c p = Next (c', p', gs, evs)"
  shows "workers p' = workers p \<and> filter holds_permit gs = []"
  using assms
  by (auto simp: caller_step_def prim_defs map_outcome_Next holds_permit_def
      split: caller_pc.splits list.splits if_splits)

lemma worker_step_permits:
  assumes "worker_step j g p = Next (g', p', evs)"
  shows "chan_cap (workers p') = chan_cap (workers p)
         \<and> of_bool (holds_permit g') + chan_len (workers p) = of_bool (holds_permit g) + chan_len (workers p')
         \<and> (chan_len (workers p) \<le> chan_cap (workers p) \<longrightarrow> chan_len (workers p') \<le> chan_cap (workers p'))"
  using assms
  by (auto simp: worker_step_def prim_defs map_outcome_Next holds_permit_def
      split: worker_pc.splits if_splits)

lemma step_permits_ok:
  assumes "permits_ok s" "step t s = Next s'"
  shows "permits_ok s'"
proof (cases t)
  case (Caller i)
  with assms(2) obtain c' p' gs evs where
    i: "i < length (callers s)" and
    cs: "caller_step i (callers s ! i) (pool s) = Next (c', p', gs, evs)" and
    s': "s' = s\<lparr>pool := p', callers := (callers s)[i := c'],
               goroutines := goroutines s @ gs, trace := trace s @ evs\<rparr>"
    by (auto simp: step_Caller_Next)
  from caller_step_permits [OF cs] assms(1) show ?thesis
    by (simp add: s' permits_ok_def executing_def)
next
  case (Worker j)
  with assms(2) obtain g' p' evs where
    j: "j < length (goroutines s)" and
    ws: "worker_step j (goroutines s ! j) (pool s) = Next (g', p', evs)" and
    s': "s' = s\<lparr>pool := p', goroutines := (goroutines s)[j := g'], trace := trace s @ evs\<rparr>"
    by (auto simp: step_Worker_Next)
  from worker_step_permits [OF ws] length_filter_update [OF j, of holds_permit g'] assms(1)
  show ?thesis
    by (simp add: s' permits_ok_def executing_def)
qed


lemma caller_step_mutex:
  assumes "caller_step i c p = Next (c', p', gs, evs)"
  shows "(of_bool (holds_mu (cpc c')) + of_bool (mu p) :: nat)
         = of_bool (holds_mu (cpc c)) + of_bool (mu p')"
  using assms
  by (auto simp: caller_step_def prim_defs map_outcome_Next holds_mu_def begin_call_def
      split: caller_pc.splits list.splits if_splits call.splits)

lemma worker_step_mutex:
  assumes "worker_step j g p = Next (g', p', evs)"
  shows "mu p' = mu p"
  using assms
  by (auto simp: worker_step_def prim_defs map_outcome_Next
      split: worker_pc.splits if_splits)

lemma step_mutex_ok:
  assumes "mutex_ok s" "step t s = Next s'"
  shows "mutex_ok s'"
proof (cases t)
  case (Caller i)
  with assms(2) obtain c' p' gs evs where
    i: "i < length (callers s)" and
    cs: "caller_step i (callers s ! i) (pool s) = Next (c', p', gs, evs)" and
    s': "s' = s\<lparr>pool := p', callers := (callers s)[i := c'],
               goroutines := goroutines s @ gs, trace := trace s @ evs\<rparr>"
    by (auto simp: step_Caller_Next)
  from caller_step_mutex [OF cs] length_filter_update [OF i, of "\<lambda>c. holds_mu (cpc c)" c']
    assms(1)
  show ?thesis
    by (simp add: s' mutex_ok_def)
next
  case (Worker j)
  with assms(2) obtain g' p' evs where
    ws: "worker_step j (goroutines s ! j) (pool s) = Next (g', p', evs)" and
    s': "s' = s\<lparr>pool := p', goroutines := (goroutines s)[j := g'], trace := trace s @ evs\<rparr>"
    by (auto simp: step_Worker_Next)
  from worker_step_mutex [OF ws] assms(1) show ?thesis
    by (simp add: s' mutex_ok_def)
qed

lemma caller_step_wg:
  assumes "caller_step i c p = Next (c', p', gs, evs)"
  shows "int (of_bool (added (cpc c'))) + int (length (filter counted gs)) + wg p
         = int (of_bool (added (cpc c))) + wg p'"
  using assms
  by (auto simp: caller_step_def prim_defs map_outcome_Next added_def counted_def begin_call_def
      split: caller_pc.splits list.splits if_splits call.splits)

lemma worker_step_wg:
  assumes "worker_step j g p = Next (g', p', evs)"
  shows "int (of_bool (counted g')) + wg p = int (of_bool (counted g)) + wg p'"
  using assms
  by (auto simp: worker_step_def prim_defs map_outcome_Next counted_def
      split: worker_pc.splits if_splits)

lemma step_wg_ok:
  assumes "wg_ok s" "step t s = Next s'"
  shows "wg_ok s'"
proof (cases t)
  case (Caller i)
  with assms(2) obtain c' p' gs evs where
    i: "i < length (callers s)" and
    cs: "caller_step i (callers s ! i) (pool s) = Next (c', p', gs, evs)" and
    s': "s' = s\<lparr>pool := p', callers := (callers s)[i := c'],
               goroutines := goroutines s @ gs, trace := trace s @ evs\<rparr>"
    by (auto simp: step_Caller_Next)
  from caller_step_wg [OF cs] length_filter_update [OF i, of "\<lambda>c. added (cpc c)" c']
    assms(1)
  show ?thesis
    by (cases "added (cpc c')"; cases "added (cpc (callers s ! i))") (simp_all add: s' wg_ok_def)
next
  case (Worker j)
  with assms(2) obtain g' p' evs where
    j: "j < length (goroutines s)" and
    ws: "worker_step j (goroutines s ! j) (pool s) = Next (g', p', evs)" and
    s': "s' = s\<lparr>pool := p', goroutines := (goroutines s)[j := g'], trace := trace s @ evs\<rparr>"
    by (auto simp: step_Worker_Next)
  from worker_step_wg [OF ws] length_filter_update [OF j, of counted g'] assms(1)
  show ?thesis
    by (cases "counted g'"; cases "counted (goroutines s ! j)") (simp_all add: s' wg_ok_def)
qed

lemma run_invariant:
  assumes "\<And>t s s'. I s \<Longrightarrow> step t s = Next s' \<Longrightarrow> I s'"
  shows "I s \<Longrightarrow> run ts s = Next s' \<Longrightarrow> I s'"
proof (induction ts arbitrary: s)
  case Nil
  then show ?case by simp
next
  case (Cons t ts)
  then show ?case using assms by (auto split: outcome.splits)
qed

subsection \<open>At most \<open>limit\<close> tasks at a time\<close>

lemma NewPool_eq:
  "NewPool limit = (if limit < 0 then Inl MakechanSizeOutOfRange
       else Inr \<lparr>workers = \<lparr>chan_cap = nat limit, chan_len = 0\<rparr>, wg = 0, activeJobs = 0,
                 closed = False, mu = False\<rparr>)"
  by (simp add: NewPool_def make_chan_def)

lemma boot_invariants:
  assumes "NewPool limit = Inr p"
  shows "permits_ok (boot p progs)" "mutex_ok (boot p progs)" "wg_ok (boot p progs)"
  using assms
  by (auto simp: NewPool_eq boot_def permits_ok_def mutex_ok_def wg_ok_def executing_def
      holds_mu_def added_def filter_map o_def split: if_splits)

lemma run_permits_ok: "permits_ok s \<Longrightarrow> run ts s = Next s' \<Longrightarrow> permits_ok s'"
  by (rule run_invariant [where I = permits_ok]) (rule step_permits_ok)

lemma run_mutex_ok: "mutex_ok s \<Longrightarrow> run ts s = Next s' \<Longrightarrow> mutex_ok s'"
  by (rule run_invariant [where I = mutex_ok]) (rule step_mutex_ok)

lemma run_wg_ok: "wg_ok s \<Longrightarrow> run ts s = Next s' \<Longrightarrow> wg_ok s'"
  by (rule run_invariant [where I = wg_ok]) (rule step_wg_ok)

lemma caller_step_cap:
  assumes "caller_step i c p = Next (c', p', gs, evs)"
  shows "workers p' = workers p"
  using caller_step_permits [OF assms] by simp

lemma step_cap:
  assumes "step t s = Next s'"
  shows "chan_cap (workers (pool s')) = chan_cap (workers (pool s))"
proof (cases t)
  case (Caller i)
  with assms show ?thesis
    by (auto simp: step_Caller_Next dest: caller_step_cap)
next
  case (Worker j)
  with assms show ?thesis
    by (auto simp: step_Worker_Next dest: worker_step_permits)
qed

lemma run_cap:
  "run ts s = Next s' \<Longrightarrow> chan_cap (workers (pool s')) = chan_cap (workers (pool s))"
  by (induction ts arbitrary: s) (auto split: outcome.splits dest: step_cap)

text \<open>
  C2. A pool made by \<open>NewPool(limit)\<close> with \<open>limit \<ge> 1\<close>, whatever the callers submit
  and however the threads are scheduled: in every state the program reaches, at most
  \<open>limit\<close> goroutines are between taking a permit and giving it back, and
  \<open>ActiveTasks\<close> is their number.
\<close>

theorem at_most_limit_executing:
  assumes "1 \<le> limit" and "NewPool limit = Inr p" and "run sched (boot p progs) = Next s"
  shows "executing s \<le> nat limit \<and> ActiveTasks (pool s) = int (executing s)
         \<and> ActiveTasks (pool s) \<le> limit"
proof -
  have "permits_ok s"
    using boot_invariants(1) [OF assms(2)] assms(3) by (rule run_permits_ok)
  moreover have "chan_cap (workers (pool s)) = nat limit"
    using run_cap [OF assms(3)] assms(1,2) by (auto simp: NewPool_eq boot_def split: if_splits)
  ultimately show ?thesis
    using assms(1) by (auto simp: permits_ok_def ActiveTasks_def le_nat_iff)
qed

theorem at_most_limit_executing_witness:
  "executing \<lparr>pool = \<lparr>workers = \<lparr>chan_cap = 2, chan_len = 2\<rparr>, wg = 3, activeJobs = 0,
                        closed = False, mu = False\<rparr>,
               callers = [\<lparr>cpc = Idle, todo = []\<rparr>],
               goroutines = [\<lparr>spawner = 0, gtask = 1, wpc = W_Body\<rparr>,
                             \<lparr>spawner = 0, gtask = 2, wpc = W_Body\<rparr>,
                             \<lparr>spawner = 0, gtask = 3, wpc = W_Acquire\<rparr>],
               trace = [SubmitOk 0 1, SubmitOk 0 2, SubmitOk 0 3,
                        TaskStarted 0 1, TaskStarted 1 2]\<rparr> \<le> nat 2"
proof -
  have 1: "(1::int) \<le> 2" by simp
  have 2: "NewPool 2 = Inr \<lparr>workers = \<lparr>chan_cap = 2, chan_len = 0\<rparr>, wg = 0, activeJobs = 0,
                        closed = False, mu = False\<rparr>"
    by (simp add: NewPool_eq)
  have 3: "run busy_schedule
             (boot \<lparr>workers = \<lparr>chan_cap = 2, chan_len = 0\<rparr>, wg = 0, activeJobs = 0,
                        closed = False, mu = False\<rparr> [[Submit 1, Submit 2, Submit 3]])
           = Next \<lparr>pool = \<lparr>workers = \<lparr>chan_cap = 2, chan_len = 2\<rparr>, wg = 3, activeJobs = 0,
                        closed = False, mu = False\<rparr>,
               callers = [\<lparr>cpc = Idle, todo = []\<rparr>],
               goroutines = [\<lparr>spawner = 0, gtask = 1, wpc = W_Body\<rparr>,
                             \<lparr>spawner = 0, gtask = 2, wpc = W_Body\<rparr>,
                             \<lparr>spawner = 0, gtask = 3, wpc = W_Acquire\<rparr>],
               trace = [SubmitOk 0 1, SubmitOk 0 2, SubmitOk 0 3,
                        TaskStarted 0 1, TaskStarted 1 2]\<rparr>"
    by code_simp
  from at_most_limit_executing [OF 1 2 3] show ?thesis by simp
qed

lemma filter_witness: "i < length xs \<Longrightarrow> P (xs ! i) \<Longrightarrow> 0 < length (filter P xs)"
  using nth_mem [of i xs] by (auto simp: filter_empty_conv)

subsection \<open>Construction\<close>

lemma zero_limit_never_admits:
  assumes "NewPool 0 = Inr p" and "run sched (boot p progs) = Next s"
  shows "executing s = 0"
proof -
  have "permits_ok s"
    using boot_invariants(1) [OF assms(1)] assms(2) by (rule run_permits_ok)
  moreover have "chan_cap (workers (pool s)) = 0"
    using run_cap [OF assms(2)] assms(1) by (auto simp: NewPool_eq boot_def)
  ultimately show ?thesis
    by (simp add: permits_ok_def)
qed

text \<open>
  C4. \<open>NewPool\<close> checks nothing itself: it fails where \<open>make\<close> panics, which is for a
  negative size only. \<open>NewPool(0)\<close> returns a pool, so the claim that every limit
  below 1 is refused at construction fails at 0.
\<close>

theorem NewPool_zero_succeeds:
  "NewPool 0 = Inr \<lparr>workers = \<lparr>chan_cap = 0, chan_len = 0\<rparr>, wg = 0, activeJobs = 0,
                    closed = False, mu = False\<rparr>"
  by (simp add: NewPool_eq)

text \<open>
  C4, as the code has it: \<open>NewPool(limit)\<close> fails at construction exactly when
  \<open>limit < 0\<close>; for every other limit, 0 included, it returns an open pool whose
  channel has that capacity. On the pool of \<open>NewPool(0)\<close> no goroutine ever holds a
  permit, whatever is submitted.
\<close>

theorem NewPool_fails_iff_negative:
  "NewPool limit =
     (if limit < 0 then Inl MakechanSizeOutOfRange
      else Inr \<lparr>workers = \<lparr>chan_cap = nat limit, chan_len = 0\<rparr>, wg = 0, activeJobs = 0,
                closed = False, mu = False\<rparr>)
   \<and> (\<forall>p progs sched s. NewPool 0 = Inr p \<and> run sched (boot p progs) = Next s \<longrightarrow>
         executing s = 0)"
  using zero_limit_never_admits by (auto simp: NewPool_def make_chan_def)

text \<open>
  At limit 0: after one \<open>Submit\<close> the task is accepted, nothing executes, and the
  goroutine waits at its send.
\<close>

theorem NewPool_fails_iff_negative_witness:
  "executing \<lparr>pool = \<lparr>workers = \<lparr>chan_cap = 0, chan_len = 0\<rparr>, wg = 1, activeJobs = 0,
                        closed = False, mu = False\<rparr>,
               callers = [\<lparr>cpc = Idle, todo = []\<rparr>],
               goroutines = [\<lparr>spawner = 0, gtask = 1, wpc = W_Acquire\<rparr>],
               trace = [SubmitOk 0 1]\<rparr> = 0
   \<and> step (Worker 0)
         \<lparr>pool = \<lparr>workers = \<lparr>chan_cap = 0, chan_len = 0\<rparr>, wg = 1, activeJobs = 0,
                        closed = False, mu = False\<rparr>,
               callers = [\<lparr>cpc = Idle, todo = []\<rparr>],
               goroutines = [\<lparr>spawner = 0, gtask = 1, wpc = W_Acquire\<rparr>],
               trace = [SubmitOk 0 1]\<rparr> = Blocked"
proof -
  have 1: "NewPool 0 = Inr \<lparr>workers = \<lparr>chan_cap = 0, chan_len = 0\<rparr>, wg = 0, activeJobs = 0,
                            closed = False, mu = False\<rparr>"
    by (simp add: NewPool_def make_chan_def)
  have 2: "run zero_schedule
             (boot \<lparr>workers = \<lparr>chan_cap = 0, chan_len = 0\<rparr>, wg = 0, activeJobs = 0,
                            closed = False, mu = False\<rparr> [[Submit 1]])
           = Next \<lparr>pool = \<lparr>workers = \<lparr>chan_cap = 0, chan_len = 0\<rparr>, wg = 1, activeJobs = 0,
                        closed = False, mu = False\<rparr>,
               callers = [\<lparr>cpc = Idle, todo = []\<rparr>],
               goroutines = [\<lparr>spawner = 0, gtask = 1, wpc = W_Acquire\<rparr>],
               trace = [SubmitOk 0 1]\<rparr>"
    by code_simp
  have 3: "step (Worker 0)
         \<lparr>pool = \<lparr>workers = \<lparr>chan_cap = 0, chan_len = 0\<rparr>, wg = 1, activeJobs = 0,
                        closed = False, mu = False\<rparr>,
               callers = [\<lparr>cpc = Idle, todo = []\<rparr>],
               goroutines = [\<lparr>spawner = 0, gtask = 1, wpc = W_Acquire\<rparr>],
               trace = [SubmitOk 0 1]\<rparr> = Blocked"
    by code_simp
  from NewPool_fails_iff_negative [of 0] 1 2 3 show ?thesis by blast
qed

subsection \<open>Close against a concurrent Submit\<close>

text \<open>
  C1. \<open>Submit\<close> unlocks the mutex between reading \<open>p.closed\<close> and \<open>p.wg.Add(1)\<close>, so a
  \<open>Close\<close> can set the flag and find the counter at zero in between. In the execution
  \<open>race_schedule\<close> on a pool of limit 1, \<open>Submit\<close> returns \<open>nil\<close> for task 7 and then
  \<open>Close\<close> returns while task 7 has not even started; the task runs afterwards.
\<close>

theorem Close_returns_before_accepted_task_ran:
  "NewPool 1 = Inr \<lparr>workers = \<lparr>chan_cap = 1, chan_len = 0\<rparr>, wg = 0, activeJobs = 0,
                    closed = False, mu = False\<rparr>
   \<and> map_outcome trace
        (run race_schedule
           (boot \<lparr>workers = \<lparr>chan_cap = 1, chan_len = 0\<rparr>, wg = 0, activeJobs = 0,
                  closed = False, mu = False\<rparr> [[Submit 7], [Close]]))
       = Next [SubmitOk 0 7, CloseReturned 1]
   \<and> pending [SubmitOk 0 7] = [7]
   \<and> \<not> close_drained [] [SubmitOk 0 7, CloseReturned 1]
   \<and> map_outcome trace
        (run (race_schedule @ [Worker 0, Worker 0, Worker 0, Worker 0, Worker 0])
           (boot \<lparr>workers = \<lparr>chan_cap = 1, chan_len = 0\<rparr>, wg = 0, activeJobs = 0,
                  closed = False, mu = False\<rparr> [[Submit 7], [Close]]))
       = Next [SubmitOk 0 7, CloseReturned 1, TaskStarted 0 7, TaskFinished 0 7]"
proof -
  have "NewPool 1 = Inr \<lparr>workers = \<lparr>chan_cap = 1, chan_len = 0\<rparr>, wg = 0, activeJobs = 0,
                    closed = False, mu = False\<rparr>"
    by (simp add: NewPool_def make_chan_def)
  moreover have "map_outcome trace
        (run race_schedule
           (boot \<lparr>workers = \<lparr>chan_cap = 1, chan_len = 0\<rparr>, wg = 0, activeJobs = 0,
                  closed = False, mu = False\<rparr> [[Submit 7], [Close]]))
       = Next [SubmitOk 0 7, CloseReturned 1]"
    by code_simp
  moreover have "pending [SubmitOk 0 7] = [7]"
    by (simp add: pending_def)
  moreover have "\<not> close_drained [] [SubmitOk 0 7, CloseReturned 1]"
    by (simp add: pending_def)
  moreover have "map_outcome trace
        (run (race_schedule @ [Worker 0, Worker 0, Worker 0, Worker 0, Worker 0])
           (boot \<lparr>workers = \<lparr>chan_cap = 1, chan_len = 0\<rparr>, wg = 0, activeJobs = 0,
                  closed = False, mu = False\<rparr> [[Submit 7], [Close]]))
       = Next [SubmitOk 0 7, CloseReturned 1, TaskStarted 0 7, TaskFinished 0 7]"
    by code_simp
  ultimately show ?thesis by blast
qed

text \<open>
  C8. A second \<open>Close\<close> does not wait for the work that is outstanding either. In the
  execution \<open>second_close_schedule\<close> on a pool of limit 1 the first \<open>Close\<close> of the second
  caller returns with nothing accepted, which is in order; then \<open>Submit\<close> returns
  \<open>nil\<close> for task 7, and the second \<open>Close\<close> returns while task 7 has not started: the
  counter is 1 and the goroutine is still before its send. The task runs afterwards.
\<close>

theorem second_Close_returns_before_accepted_task_ran:
  "map_outcome (\<lambda>s. (trace s, wg (pool s), closed (pool s), goroutines s))
        (run second_close_schedule
           (boot \<lparr>workers = \<lparr>chan_cap = 1, chan_len = 0\<rparr>, wg = 0, activeJobs = 0,
                  closed = False, mu = False\<rparr> [[Submit 7], [Close, Close]]))
       = Next ([CloseReturned 1, SubmitOk 0 7, CloseReturned 1], 1, True,
               [\<lparr>spawner = 0, gtask = 7, wpc = W_Acquire\<rparr>])
   \<and> close_drained [] [CloseReturned 1]
   \<and> pending [CloseReturned 1, SubmitOk 0 7] = [7]
   \<and> \<not> close_drained [] [CloseReturned 1, SubmitOk 0 7, CloseReturned 1]
   \<and> map_outcome trace
        (run (second_close_schedule @ [Worker 0, Worker 0, Worker 0, Worker 0, Worker 0])
           (boot \<lparr>workers = \<lparr>chan_cap = 1, chan_len = 0\<rparr>, wg = 0, activeJobs = 0,
                  closed = False, mu = False\<rparr> [[Submit 7], [Close, Close]]))
       = Next [CloseReturned 1, SubmitOk 0 7, CloseReturned 1, TaskStarted 0 7, TaskFinished 0 7]"
proof -
  have "map_outcome (\<lambda>s. (trace s, wg (pool s), closed (pool s), goroutines s))
        (run second_close_schedule
           (boot \<lparr>workers = \<lparr>chan_cap = 1, chan_len = 0\<rparr>, wg = 0, activeJobs = 0,
                  closed = False, mu = False\<rparr> [[Submit 7], [Close, Close]]))
       = Next ([CloseReturned 1, SubmitOk 0 7, CloseReturned 1], 1, True,
               [\<lparr>spawner = 0, gtask = 7, wpc = W_Acquire\<rparr>])"
    by code_simp
  moreover have "close_drained [] [CloseReturned 1]"
    by (simp add: pending_def)
  moreover have "pending [CloseReturned 1, SubmitOk 0 7] = [7]"
    by (simp add: pending_def)
  moreover have "\<not> close_drained [] [CloseReturned 1, SubmitOk 0 7, CloseReturned 1]"
    by (simp add: pending_def)
  moreover have "map_outcome trace
        (run (second_close_schedule @ [Worker 0, Worker 0, Worker 0, Worker 0, Worker 0])
           (boot \<lparr>workers = \<lparr>chan_cap = 1, chan_len = 0\<rparr>, wg = 0, activeJobs = 0,
                  closed = False, mu = False\<rparr> [[Submit 7], [Close, Close]]))
       = Next [CloseReturned 1, SubmitOk 0 7, CloseReturned 1, TaskStarted 0 7, TaskFinished 0 7]"
    by code_simp
  ultimately show ?thesis by blast
qed

subsection \<open>The channel never makes a receiver wait\<close>

lemma receive_never_waits:
  assumes "permits_ok s" and "j < length (goroutines s)" and "wpc (goroutines s ! j) = W_Release"
  shows "step (Worker j) s \<noteq> Blocked"
proof -
  from assms(2,3) have "0 < length (filter holds_permit (goroutines s))"
    by (intro filter_witness [of j]) (simp_all add: holds_permit_def)
  with assms(1) have "0 < chan_len (workers (pool s))"
    by (simp add: permits_ok_def executing_def)
  with assms(2,3) show ?thesis
    by (simp add: step_def worker_step_def workers_recv_def)
qed

subsection \<open>Submit on a closed and on an open pool\<close>

lemma caller_step_rejects:
  assumes "caller_step i c p = Next (c', p', gs, evs)" and "closed p" and "\<not> accepting (cpc c)"
  shows "closed p' \<and> \<not> accepting (cpc c') \<and> gs = [] \<and> accepted_by i evs = []"
  using assms
  by (auto simp: caller_step_def prim_defs map_outcome_Next accepting_def begin_call_def
      accepted_by_def is_SubmitOk_of_def
      split: caller_pc.splits list.splits if_splits call.splits)

lemma caller_step_other:
  assumes "caller_step k c p = Next (c', p', gs, evs)" and "closed p" and "k \<noteq> i"
  shows "closed p' \<and> filter (\<lambda>g. spawner g = i) gs = [] \<and> accepted_by i evs = []"
  using assms
  by (auto simp: caller_step_def prim_defs map_outcome_Next
      accepted_by_def is_SubmitOk_of_def
      split: caller_pc.splits list.splits if_splits)

lemma worker_step_rejects:
  assumes "worker_step j g p = Next (g', p', evs)"
  shows "closed p' = closed p \<and> spawner g' = spawner g \<and> accepted_by i evs = []"
  using assms
  by (auto simp: worker_step_def prim_defs map_outcome_Next
      accepted_by_def is_SubmitOk_of_def
      split: worker_pc.splits if_splits)

lemma filter_update_same:
  "j < length xs \<Longrightarrow> P y = P (xs ! j) \<Longrightarrow> length (filter P (xs[j := y])) = length (filter P xs)"
  using length_filter_update [of j xs P y] by simp

lemma step_rejects:
  assumes "rejects i n a s" and "step t s = Next s'"
  shows "rejects i n a s'"
proof (cases t)
  case (Caller k)
  with assms(2) obtain c' p' gs evs where
    k: "k < length (callers s)" and
    cs: "caller_step k (callers s ! k) (pool s) = Next (c', p', gs, evs)" and
    s': "s' = s\<lparr>pool := p', callers := (callers s)[k := c'],
               goroutines := goroutines s @ gs, trace := trace s @ evs\<rparr>"
    by (auto simp: step_Caller_Next)
  show ?thesis
  proof (cases "k = i")
    case True
    with caller_step_rejects [of i "callers s ! i" "pool s" c' p' gs evs] cs assms(1) k
    show ?thesis
      by (simp add: s' rejects_def spawned_by_def accepted_by_def)
  next
    case False
    with caller_step_other [OF cs, of i] assms(1) k
    show ?thesis
      by (simp add: s' rejects_def spawned_by_def accepted_by_def)
  qed
next
  case (Worker j)
  with assms(2) obtain g' p' evs where
    j: "j < length (goroutines s)" and
    ws: "worker_step j (goroutines s ! j) (pool s) = Next (g', p', evs)" and
    s': "s' = s\<lparr>pool := p', goroutines := (goroutines s)[j := g'], trace := trace s @ evs\<rparr>"
    by (auto simp: step_Worker_Next)
  from worker_step_rejects [OF ws, of i] assms(1)
    filter_update_same [OF j, of "\<lambda>g. spawner g = i" g']
  show ?thesis
    by (simp add: s' rejects_def spawned_by_def accepted_by_def)
qed

lemma run_rejects: "rejects i n a s \<Longrightarrow> run ts s = Next s' \<Longrightarrow> rejects i n a s'"
  by (rule run_invariant [where I = "rejects i n a"]) (rule step_rejects)

lemma Pool_mu_restore: "\<not> mu p \<Longrightarrow> p\<lparr>mu := False\<rparr> = p"
  by (cases p) simp

lemma Pool_closed_restore: "closed p \<Longrightarrow> p\<lparr>closed := True\<rparr> = p"
  by (cases p) simp

lemma Submit_on_closed_pool:
  assumes "i < length (callers s)" and "callers s ! i = \<lparr>cpc = Idle, todo = Submit t # rest\<rparr>"
    and "closed (pool s)" and "\<not> mu (pool s)"
  shows "run [Caller i, Caller i, Caller i, Caller i] s =
           Next (s\<lparr>callers := (callers s)[i := \<lparr>cpc = Idle, todo = rest\<rparr>],
                   trace := trace s @ [SubmitErr i t]\<rparr>)"
  using assms
  by (simp add: step_def caller_step_def prim_defs begin_call_def Pool_mu_restore)

lemma Submit_on_open_pool:
  assumes "i < length (callers s)" and "callers s ! i = \<lparr>cpc = Idle, todo = Submit t # rest\<rparr>"
    and "\<not> closed (pool s)" and "\<not> mu (pool s)" and "0 \<le> wg (pool s)"
  shows "run [Caller i, Caller i, Caller i, Caller i, Caller i, Caller i] s =
           Next (s\<lparr>pool := (pool s)\<lparr>wg := wg (pool s) + 1\<rparr>,
                   callers := (callers s)[i := \<lparr>cpc = Idle, todo = rest\<rparr>],
                   goroutines := goroutines s @ [\<lparr>spawner = i, gtask = t, wpc = W_Acquire\<rparr>],
                   trace := trace s @ [SubmitOk i t]\<rparr>)"
  using assms
  by (simp add: step_def caller_step_def prim_defs begin_call_def Pool_mu_restore)

lemma Close_sets_closed:
  assumes "i < length (callers s)" and "callers s ! i = \<lparr>cpc = Idle, todo = Close # rest\<rparr>"
    and "\<not> mu (pool s)"
  shows "run [Caller i, Caller i] s =
           Next (s\<lparr>pool := (pool s)\<lparr>closed := True, mu := True\<rparr>,
                   callers := (callers s)[i := \<lparr>cpc = Close_Unlock, todo = rest\<rparr>]\<rparr>)"
  using assms
  by (simp add: step_def caller_step_def prim_defs begin_call_def)

text \<open>
  C3. Let caller \<open>i\<close> be about to call \<open>Submit(t)\<close>. The pool is closed from the
  second statement of any \<open>Close\<close> on. If the pool is closed, then however the threads
  are scheduled from here, the pool stays closed, caller \<open>i\<close> never gets past the check
  of \<open>p.closed\<close>, starts no goroutine and has no submission accepted; run on its own it
  returns the error after four statements and leaves pool and goroutines as they
  were. If the pool is open, \<open>Submit\<close> run on its own returns \<open>nil\<close> after six
  statements, with the counter one higher and the new goroutine still before its send:
  the task has neither started nor finished.
\<close>

theorem Submit_rejected_once_closed:
  assumes "i < length (callers s)"
    and "callers s ! i = \<lparr>cpc = Idle, todo = Submit t # rest\<rparr>"
  shows "(closed (pool s) \<longrightarrow>
           (\<forall>ts s'. run ts s = Next s' \<longrightarrow>
              closed (pool s') \<and> \<not> accepting (cpc (callers s' ! i))
              \<and> length (spawned_by i s') = length (spawned_by i s)
              \<and> accepted_by i (trace s') = accepted_by i (trace s)))
       \<and> (closed (pool s) \<and> \<not> mu (pool s) \<longrightarrow>
            run [Caller i, Caller i, Caller i, Caller i] s =
              Next (s\<lparr>callers := (callers s)[i := \<lparr>cpc = Idle, todo = rest\<rparr>],
                      trace := trace s @ [SubmitErr i t]\<rparr>))
       \<and> (\<not> closed (pool s) \<and> \<not> mu (pool s) \<and> 0 \<le> wg (pool s) \<longrightarrow>
            run [Caller i, Caller i, Caller i, Caller i, Caller i, Caller i] s =
              Next (s\<lparr>pool := (pool s)\<lparr>wg := wg (pool s) + 1\<rparr>,
                      callers := (callers s)[i := \<lparr>cpc = Idle, todo = rest\<rparr>],
                      goroutines := goroutines s @ [\<lparr>spawner = i, gtask = t, wpc = W_Acquire\<rparr>],
                      trace := trace s @ [SubmitOk i t]\<rparr>))
       \<and> (\<forall>k rest'. k < length (callers s)
              \<and> callers s ! k = \<lparr>cpc = Idle, todo = Close # rest'\<rparr> \<and> \<not> mu (pool s) \<longrightarrow>
            (\<exists>s2. run [Caller k, Caller k] s = Next s2 \<and> closed (pool s2)))"
proof (intro conjI impI allI)
  fix ts s'
  assume "closed (pool s)" and r: "run ts s = Next s'"
  with assms have "rejects i (length (spawned_by i s)) (accepted_by i (trace s)) s"
    by (simp add: rejects_def accepting_def)
  then have "rejects i (length (spawned_by i s)) (accepted_by i (trace s)) s'"
    using r by (rule run_rejects)
  then show "closed (pool s')" and "\<not> accepting (cpc (callers s' ! i))"
    and "length (spawned_by i s') = length (spawned_by i s)"
    and "accepted_by i (trace s') = accepted_by i (trace s)"
    by (simp_all add: rejects_def)
next
  assume "closed (pool s) \<and> \<not> mu (pool s)"
  with assms show "run [Caller i, Caller i, Caller i, Caller i] s =
              Next (s\<lparr>callers := (callers s)[i := \<lparr>cpc = Idle, todo = rest\<rparr>],
                      trace := trace s @ [SubmitErr i t]\<rparr>)"
    by (intro Submit_on_closed_pool) simp_all
next
  assume "\<not> closed (pool s) \<and> \<not> mu (pool s) \<and> 0 \<le> wg (pool s)"
  with assms show "run [Caller i, Caller i, Caller i, Caller i, Caller i, Caller i] s =
              Next (s\<lparr>pool := (pool s)\<lparr>wg := wg (pool s) + 1\<rparr>,
                      callers := (callers s)[i := \<lparr>cpc = Idle, todo = rest\<rparr>],
                      goroutines := goroutines s @ [\<lparr>spawner = i, gtask = t, wpc = W_Acquire\<rparr>],
                      trace := trace s @ [SubmitOk i t]\<rparr>)"
    by (intro Submit_on_open_pool) simp_all
next
  fix k rest'
  assume "k < length (callers s)
              \<and> callers s ! k = \<lparr>cpc = Idle, todo = Close # rest'\<rparr> \<and> \<not> mu (pool s)"
  then have "run [Caller k, Caller k] s =
           Next (s\<lparr>pool := (pool s)\<lparr>closed := True, mu := True\<rparr>,
                   callers := (callers s)[k := \<lparr>cpc = Close_Unlock, todo = rest'\<rparr>]\<rparr>)"
    by (intro Close_sets_closed) simp_all
  then show "\<exists>s2. run [Caller k, Caller k] s = Next s2 \<and> closed (pool s2)"
    by simp
qed

text \<open>
  On the examples: the closed pool rejects task 5, also when a second \<open>Close\<close> runs in
  between; the open pool accepts it.
\<close>

theorem Submit_rejected_once_closed_witness:
  "map_outcome trace (run [Caller 0, Caller 0, Caller 0, Caller 0] closed_example)
     = Next [CloseReturned 1, SubmitErr 0 5]
   \<and> map_outcome goroutines (run [Caller 0, Caller 0, Caller 0, Caller 0] closed_example)
     = Next []
   \<and> map_outcome trace
        (run [Caller 0, Caller 0, Caller 0, Caller 0, Caller 0, Caller 0] open_example)
     = Next [SubmitOk 0 5]
   \<and> map_outcome goroutines
        (run [Caller 0, Caller 0, Caller 0, Caller 0, Caller 0, Caller 0] open_example)
     = Next [\<lparr>spawner = 0, gtask = 5, wpc = W_Acquire\<rparr>]
   \<and> map_outcome (\<lambda>s. closed (pool s)) (run [Caller 1, Caller 1] open_example) = Next True
   \<and> map_outcome (\<lambda>s. (closed (pool s), length (spawned_by 0 s), accepted_by 0 (trace s)))
        (run mixed_schedule closed_example) = Next (True, 0, [])"
proof -
  have m: "run mixed_schedule closed_example =
             Next \<lparr>pool = \<lparr>workers = \<lparr>chan_cap = 1, chan_len = 0\<rparr>, wg = 0, activeJobs = 0,
                            closed = True, mu = False\<rparr>,
                    callers = [\<lparr>cpc = Idle, todo = []\<rparr>, \<lparr>cpc = Idle, todo = []\<rparr>],
                    goroutines = [],
                    trace = [CloseReturned 1, SubmitErr 0 5, CloseReturned 1]\<rparr>"
    by code_simp
  have c: "0 < length (callers closed_example)"
    "callers closed_example ! 0 = \<lparr>cpc = Idle, todo = Submit 5 # []\<rparr>"
    "closed (pool closed_example) \<and> \<not> mu (pool closed_example)"
    by (simp_all add: closed_example_def)
  have o: "0 < length (callers open_example)"
    "callers open_example ! 0 = \<lparr>cpc = Idle, todo = Submit 5 # []\<rparr>"
    "\<not> closed (pool open_example) \<and> \<not> mu (pool open_example) \<and> 0 \<le> wg (pool open_example)"
    "1 < length (callers open_example)
     \<and> callers open_example ! 1 = \<lparr>cpc = Idle, todo = Close # []\<rparr> \<and> \<not> mu (pool open_example)"
    by (simp_all add: open_example_def)
  from Submit_rejected_once_closed [OF c(1,2)] c(3)
  have 1: "run [Caller 0, Caller 0, Caller 0, Caller 0] closed_example =
              Next (closed_example\<lparr>callers := (callers closed_example)[0 := \<lparr>cpc = Idle, todo = []\<rparr>],
                      trace := trace closed_example @ [SubmitErr 0 5]\<rparr>)"
    by blast
  from Submit_rejected_once_closed [OF o(1,2)] o(3)
  have 2: "run [Caller 0, Caller 0, Caller 0, Caller 0, Caller 0, Caller 0] open_example =
              Next (open_example\<lparr>pool := (pool open_example)\<lparr>wg := wg (pool open_example) + 1\<rparr>,
                      callers := (callers open_example)[0 := \<lparr>cpc = Idle, todo = []\<rparr>],
                      goroutines := goroutines open_example @ [\<lparr>spawner = 0, gtask = 5, wpc = W_Acquire\<rparr>],
                      trace := trace open_example @ [SubmitOk 0 5]\<rparr>)"
    by blast
  from Submit_rejected_once_closed [OF o(1,2)] o(4)
  obtain s2 where 3: "run [Caller 1, Caller 1] open_example = Next s2" "closed (pool s2)"
    by blast
  from Submit_rejected_once_closed [OF c(1,2)] c(3) m
  have 4: "closed (pool \<lparr>pool = \<lparr>workers = \<lparr>chan_cap = 1, chan_len = 0\<rparr>, wg = 0, activeJobs = 0,
                            closed = True, mu = False\<rparr>,
                    callers = [\<lparr>cpc = Idle, todo = []\<rparr>, \<lparr>cpc = Idle, todo = []\<rparr>],
                    goroutines = [],
                    trace = [CloseReturned 1, SubmitErr 0 5, CloseReturned 1]\<rparr>)
      \<and> length (spawned_by 0 \<lparr>pool = \<lparr>workers = \<lparr>chan_cap = 1, chan_len = 0\<rparr>, wg = 0, activeJobs = 0,
                            closed = True, mu = False\<rparr>,
                    callers = [\<lparr>cpc = Idle, todo = []\<rparr>, \<lparr>cpc = Idle, todo = []\<rparr>],
                    goroutines = [],
                    trace = [CloseReturned 1, SubmitErr 0 5, CloseReturned 1]\<rparr>)
          = length (spawned_by 0 closed_example)
      \<and> accepted_by 0 (trace \<lparr>pool = \<lparr>workers = \<lparr>chan_cap = 1, chan_len = 0\<rparr>, wg = 0, activeJobs = 0,
                            closed = True, mu = False\<rparr>,
                    callers = [\<lparr>cpc = Idle, todo = []\<rparr>, \<lparr>cpc = Idle, todo = []\<rparr>],
                    goroutines = [],
                    trace = [CloseReturned 1, SubmitErr 0 5, CloseReturned 1]\<rparr>)
          = accepted_by 0 (trace closed_example)"
    by blast
  show ?thesis
    unfolding 1 2 3 m using 3(2) 4
    by (simp add: closed_example_def open_example_def spawned_by_def accepted_by_def
        is_SubmitOk_of_def)
qed

subsection \<open>Close on a pool that is already closed\<close>

text \<open>
  Run on its own, a \<open>Close\<close> on a closed pool takes and gives back the mutex, sets
  the flag that is already set and reaches \<open>wg.Wait()\<close> with the pool as it was; when
  the counter is zero it returns, and pool and goroutines are as before.
\<close>

lemma Close_on_closed_pool:
  assumes "i < length (callers s)" and "callers s ! i = \<lparr>cpc = Idle, todo = Close # rest\<rparr>"
    and "closed (pool s)" and "\<not> mu (pool s)"
  shows "run [Caller i, Caller i, Caller i] s =
           Next (s\<lparr>callers := (callers s)[i := \<lparr>cpc = Close_Wait, todo = rest\<rparr>]\<rparr>)"
  using assms
  by (simp add: step_def caller_step_def prim_defs begin_call_def Pool_mu_restore
      Pool_closed_restore)

lemma Close_on_drained_pool:
  assumes "i < length (callers s)" and "callers s ! i = \<lparr>cpc = Idle, todo = Close # rest\<rparr>"
    and "closed (pool s)" and "\<not> mu (pool s)" and "wg (pool s) = 0"
  shows "run [Caller i, Caller i, Caller i, Caller i, Caller i] s =
           Next (s\<lparr>callers := (callers s)[i := \<lparr>cpc = Idle, todo = rest\<rparr>],
                   trace := trace s @ [CloseReturned i]\<rparr>)"
  using assms
  by (simp add: step_def caller_step_def prim_defs begin_call_def Pool_mu_restore
      Pool_closed_restore)

end
